theory Spec2Isabelle
  imports Main "HOL-Library.Multiset"
begin

section \<open>Data model\<close>

text \<open>
  The module \<^verbatim>\<open>src/manhattan.py\<close> works on a numpy array. An array is modelled by its
  \<^verbatim>\<open>shape\<close> tuple and its elements in row-major (index) order, which is the order in
  which \<^verbatim>\<open>np.nonzero\<close> reports them. Elements are integers: the code only ever
  compares them with 0.
\<close>

record ndarray =
  shape :: "nat list"
  data :: "int list"

text \<open>The exceptions the module can raise: the explicit \<^verbatim>\<open>ValueError\<close> of the rank
  check, and the \<^verbatim>\<open>TypeError\<close> of \<^verbatim>\<open>functools.reduce\<close> on an empty sequence without
  an initial value.\<close>

datatype error = ValueError | TypeError

text \<open>An array object is consistent when it holds as many elements as its shape says.\<close>

definition wf_ndarray :: "ndarray \<Rightarrow> bool" where
  "wf_ndarray X \<longleftrightarrow> length (data X) = prod_list (shape X)"

section \<open>Extracting the positive centers\<close>

text \<open>
  \<^verbatim>\<open>np.nonzero(X > 0)\<close> yields, for a rank 2 array, the row indices and the column indices
  of the cells with a value above 0, in row-major order; \<^verbatim>\<open>zip\<close> pairs them up. The
  function is only reached after the rank check, so only rank 2 is modelled; element
  \<^verbatim>\<open>X[i, j]\<close> is entry \<open>i * W + j\<close> of the row-major data.
\<close>

definition array_to_pos_center_coordinates :: "ndarray \<Rightarrow> (int \<times> int) list" where
  "array_to_pos_center_coordinates X =
     (case shape X of
        [H, W] \<Rightarrow> [(int i, int j). i \<leftarrow> [0..<H], j \<leftarrow> [0..<W], data X ! (i * W + j) > 0]
      | _ \<Rightarrow> [])"

section \<open>The neighbourhood of one center\<close>

text \<open>
  The two nested \<^verbatim>\<open>for\<close> loops over \<^verbatim>\<open>range(0, radius + 1)\<close> are folds over the integer
  interval \<open>[0..radius]\<close> (empty when \<open>radius < 0\<close>), threading the set
  \<^verbatim>\<open>neighborhood\<close>; \<^verbatim>\<open>update\<close> is union with the four reflected points.
\<close>

definition scan_d_y :: "int \<Rightarrow> int \<Rightarrow> int \<Rightarrow> int \<Rightarrow> int \<Rightarrow> (int \<times> int) set \<Rightarrow> (int \<times> int) set" where
  "scan_d_y x y radius d_x d_y neighborhood =
     (if radius \<ge> d_x + d_y \<and> d_x + d_y > 0
      then neighborhood \<union>
             {(x + d_x, y + d_y), (x - d_x, y + d_y), (x + d_x, y - d_y), (x - d_x, y - d_y)}
      else neighborhood)"

definition scan_d_x :: "int \<Rightarrow> int \<Rightarrow> int \<Rightarrow> int \<Rightarrow> (int \<times> int) set \<Rightarrow> (int \<times> int) set" where
  "scan_d_x x y radius d_x neighborhood =
     fold (scan_d_y x y radius d_x) [0..radius] neighborhood"

definition manhattan_neighborhood ::
    "int \<times> int \<Rightarrow> int \<Rightarrow> bool \<Rightarrow> int \<times> int \<Rightarrow> (int \<times> int) set" where
  "manhattan_neighborhood coor radius prune_wraparound size' =
     (let (x, y) = coor;
          neighborhood = fold (scan_d_x x y radius) [0..radius] {}
      in if prune_wraparound then
           (let x_max = fst size' - 1; y_max = snd size' - 1
            in Set.filter (\<lambda>(x, y). (0 \<le> x \<and> x \<le> x_max) \<and> (0 \<le> y \<and> y \<le> y_max)) neighborhood)
         else neighborhood)"

section \<open>Counting the cells near a positive cell\<close>

text \<open>\<^verbatim>\<open>reduce(operator.or_, sets)\<close> without an initial value: a left fold of set union
  starting from the first set, and a \<^verbatim>\<open>TypeError\<close> on the empty list.\<close>

fun reduce_or :: "'a set list \<Rightarrow> error + 'a set" where
  "reduce_or [] = Inl TypeError"
| "reduce_or (s # ss) = Inr (foldl (\<union>) s ss)"

text \<open>The coordinates are numpy integers, so \<^verbatim>\<open>%\<close> is numpy's remainder: the sign of
  the divisor, and 0 (with a warning, not an exception) for a zero divisor.\<close>

definition np_remainder :: "int \<Rightarrow> int \<Rightarrow> int" where
  "np_remainder a b = (if b = 0 then 0 else a mod b)"

text \<open>Lines 99 to 110: the union of the neighbourhoods of all centers, with the centers
  added back.\<close>

definition all_neighbors ::
    "(int \<times> int) list \<Rightarrow> int \<Rightarrow> bool \<Rightarrow> int \<times> int \<Rightarrow> error + (int \<times> int) set" where
  "all_neighbors positive_centers radius wraparound size' =
     (case reduce_or
             (map (\<lambda>center. manhattan_neighborhood center radius (\<not> wraparound) size')
                positive_centers) of
        Inl e \<Rightarrow> Inl e
      | Inr neighbors \<Rightarrow> Inr (neighbors \<union> set positive_centers))"

text \<open>Lines 96 to 120: everything after the centers have been extracted.\<close>

definition count_centers ::
    "(int \<times> int) list \<Rightarrow> int \<Rightarrow> bool \<Rightarrow> int \<times> int \<Rightarrow> error + nat" where
  "count_centers positive_centers radius wraparound size' =
     (if length positive_centers = 0 then Inr 0
      else
        (case all_neighbors positive_centers radius wraparound size' of
           Inl e \<Rightarrow> Inl e
         | Inr neighbors \<Rightarrow>
             (let (x_max, y_max) = size'
              in if wraparound then
                   Inr (card ((\<lambda>(x, y). (np_remainder x x_max, np_remainder y y_max)) ` neighbors))
                 else Inr (card neighbors))))"

definition count_positive_neighborhood_size :: "ndarray \<Rightarrow> int \<Rightarrow> bool \<Rightarrow> error + nat" where
  "count_positive_neighborhood_size X radius wraparound =
     (if length (shape X) \<noteq> 2 then Inl ValueError
      else count_centers (array_to_pos_center_coordinates X) radius wraparound
             (int (shape X ! 0), int (shape X ! 1)))"

section \<open>Notions of the specification\<close>

text \<open>The Manhattan (L1) distance between two coordinates.\<close>

definition l1_distance :: "int \<times> int \<Rightarrow> int \<times> int \<Rightarrow> int" where
  "l1_distance p q = \<bar>fst p - fst q\<bar> + \<bar>snd p - snd q\<bar>"

text \<open>The number of cells of an array whose value is strictly greater than 0.\<close>

definition positive_cells :: "ndarray \<Rightarrow> nat" where
  "positive_cells X = length (filter (\<lambda>v. v > 0) (data X))"

text \<open>The transpose \<^verbatim>\<open>X.T\<close> of a rank 2 array: the shape is reversed and element
  \<open>[j, i]\<close> of the transpose is element \<open>[i, j]\<close> of the array. Other ranks, which no
  statement below is about, are left as they are.\<close>

definition transpose_nd :: "ndarray \<Rightarrow> ndarray" where
  "transpose_nd X =
     (case shape X of
        [H, W] \<Rightarrow> \<lparr>shape = [W, H], data = [data X ! (i * W + j). j \<leftarrow> [0..<W], i \<leftarrow> [0..<H]]\<rparr>
      | _ \<Rightarrow> X)"

section \<open>The neighbourhood as a set\<close>

lemma fold_scan_d_y:
  "fold (scan_d_y x y radius d_x) ds S =
     S \<union> (\<Union>d_y \<in> set ds. scan_d_y x y radius d_x d_y {})"
  by (induction ds arbitrary: S) (auto simp: scan_d_y_def)

lemma scan_d_x_eq:
  "scan_d_x x y radius d_x S =
     S \<union> (\<Union>d_y \<in> {0..radius}. scan_d_y x y radius d_x d_y {})"
  by (simp add: scan_d_x_def fold_scan_d_y)

lemma fold_scan_d_x:
  "fold (scan_d_x x y radius) ds S =
     S \<union> (\<Union>d_x \<in> set ds. \<Union>d_y \<in> {0..radius}. scan_d_y x y radius d_x d_y {})"
proof (induction ds arbitrary: S)
  case Nil
  show ?case by simp
next
  case (Cons d ds)
  have "fold (scan_d_x x y radius) (d # ds) S = fold (scan_d_x x y radius) ds (scan_d_x x y radius d S)"
    by simp
  also have "\<dots> = scan_d_x x y radius d S \<union>
      (\<Union>d_x \<in> set ds. \<Union>d_y \<in> {0..radius}. scan_d_y x y radius d_x d_y {})"
    by (rule Cons.IH)
  also have "\<dots> = S \<union>
      (\<Union>d_x \<in> set (d # ds). \<Union>d_y \<in> {0..radius}. scan_d_y x y radius d_x d_y {})"
    by (simp add: scan_d_x_eq Un_assoc)
  finally show ?case .
qed

lemma scanned_iff:
  "(a, b) \<in> (\<Union>d_x \<in> {0..radius}. \<Union>d_y \<in> {0..radius}. scan_d_y x y radius d_x d_y {})
     \<longleftrightarrow> 0 < \<bar>a - x\<bar> + \<bar>b - y\<bar> \<and> \<bar>a - x\<bar> + \<bar>b - y\<bar> \<le> radius"
  (is "?L \<longleftrightarrow> ?R")
proof
  assume ?L
  then obtain d_x d_y where "0 \<le> d_x" "0 \<le> d_y" "d_x + d_y \<le> radius" "0 < d_x + d_y"
      and "(a, b) \<in> {(x + d_x, y + d_y), (x - d_x, y + d_y), (x + d_x, y - d_y), (x - d_x, y - d_y)}"
    by (auto simp: scan_d_y_def split: if_splits)
  then show ?R by auto
next
  assume R: ?R
  define d_x where "d_x = \<bar>a - x\<bar>"
  define d_y where "d_y = \<bar>b - y\<bar>"
  have rng: "d_x \<in> {0..radius}" "d_y \<in> {0..radius}"
    using R by (auto simp: d_x_def d_y_def)
  have cond: "radius \<ge> d_x + d_y \<and> d_x + d_y > 0"
    using R by (simp add: d_x_def d_y_def)
  have "(a, b) \<in> {(x + d_x, y + d_y), (x - d_x, y + d_y), (x + d_x, y - d_y), (x - d_x, y - d_y)}"
    by (auto simp: d_x_def d_y_def)
  then have "(a, b) \<in> scan_d_y x y radius d_x d_y {}"
    using cond by (simp add: scan_d_y_def)
  then show ?L using rng by blast
qed

lemma neighborhood_unpruned:
  "manhattan_neighborhood (x, y) radius False sz =
     {(a, b). 0 < \<bar>a - x\<bar> + \<bar>b - y\<bar> \<and> \<bar>a - x\<bar> + \<bar>b - y\<bar> \<le> radius}"
proof -
  have "manhattan_neighborhood (x, y) radius False sz =
      (\<Union>d_x \<in> {0..radius}. \<Union>d_y \<in> {0..radius}. scan_d_y x y radius d_x d_y {})"
    by (simp add: manhattan_neighborhood_def fold_scan_d_x)
  also have "\<dots> = {(a, b). 0 < \<bar>a - x\<bar> + \<bar>b - y\<bar> \<and> \<bar>a - x\<bar> + \<bar>b - y\<bar> \<le> radius}"
  proof (rule set_eqI)
    fix p :: "int \<times> int"
    obtain a b where p: "p = (a, b)" by (cases p)
    show "p \<in> (\<Union>d_x \<in> {0..radius}. \<Union>d_y \<in> {0..radius}. scan_d_y x y radius d_x d_y {})
        \<longleftrightarrow> p \<in> {(a, b). 0 < \<bar>a - x\<bar> + \<bar>b - y\<bar> \<and> \<bar>a - x\<bar> + \<bar>b - y\<bar> \<le> radius}"
      unfolding p by (simp only: scanned_iff mem_Collect_eq case_prod_conv)
  qed
  finally show ?thesis .
qed

lemma neighborhood_pruned:
  "manhattan_neighborhood c radius True sz =
     {(a, b) \<in> manhattan_neighborhood c radius False sz. 0 \<le> a \<and> a \<le> fst sz - 1 \<and> 0 \<le> b \<and> b \<le> snd sz - 1}"
  by (cases c) (auto simp: manhattan_neighborhood_def Let_def)

lemma neighborhood_pruned_eq:
  "manhattan_neighborhood (x, y) r True (sx, sy) =
     {(a, b). 0 < \<bar>a - x\<bar> + \<bar>b - y\<bar> \<and> \<bar>a - x\<bar> + \<bar>b - y\<bar> \<le> r \<and>
              0 \<le> a \<and> a \<le> sx - 1 \<and> 0 \<le> b \<and> b \<le> sy - 1}"
  unfolding neighborhood_pruned [of "(x, y)"] neighborhood_unpruned by auto

lemma neighborhood_pruned_subset:
  "manhattan_neighborhood c r True sz \<subseteq> manhattan_neighborhood c r False sz"
  unfolding neighborhood_pruned [of c] by blast

lemma finite_neighborhood: "finite (manhattan_neighborhood c r p sz)"
proof -
  obtain x y where c: "c = (x, y)" by (cases c)
  have "manhattan_neighborhood c r False sz \<subseteq> {x - r..x + r} \<times> {y - r..y + r}"
    unfolding c neighborhood_unpruned by auto
  then have "finite (manhattan_neighborhood c r False sz)"
    by (rule finite_subset) simp
  then show ?thesis
    using neighborhood_pruned_subset [of c r sz] by (cases p) (auto intro: finite_subset)
qed

lemma neighborhood_empty: "r \<le> 0 \<Longrightarrow> manhattan_neighborhood c r p sz = {}"
proof -
  assume r: "r \<le> 0"
  obtain x y where c: "c = (x, y)" by (cases c)
  have "manhattan_neighborhood c r False sz = {}"
    unfolding c neighborhood_unpruned using r by auto
  then show ?thesis
    using neighborhood_pruned_subset [of c r sz] by (cases p) auto
qed

lemma neighborhood_in_box:
  "manhattan_neighborhood c r True (sx, sy) \<subseteq> {0..sx - 1} \<times> {0..sy - 1}"
  by (cases c) (auto simp: neighborhood_pruned_eq)

lemma neighborhood_swap:
  "manhattan_neighborhood (y, x) r True (sy, sx) =
     prod.swap ` manhattan_neighborhood (x, y) r True (sx, sy)"
  unfolding neighborhood_pruned_eq by (auto simp: image_iff add.commute)

section \<open>The union over the centers\<close>

lemma foldl_Un: "foldl (\<union>) s ss = s \<union> \<Union>(set ss)"
  by (induction ss arbitrary: s) auto

lemma reduce_or_map: "cs \<noteq> [] \<Longrightarrow> reduce_or (map f cs) = Inr (\<Union>c \<in> set cs. f c)"
  by (cases cs) (auto simp: foldl_Un)

lemma all_neighbors_eq:
  "cs \<noteq> [] \<Longrightarrow> all_neighbors cs r w sz =
     Inr ((\<Union>c \<in> set cs. manhattan_neighborhood c r (\<not> w) sz) \<union> set cs)"
  by (simp add: all_neighbors_def reduce_or_map)

lemma count_centers_Nil: "count_centers [] r w sz = Inr 0"
  by (simp add: count_centers_def)

lemma count_centers_prune:
  "cs \<noteq> [] \<Longrightarrow> count_centers cs r False sz =
     Inr (card ((\<Union>c \<in> set cs. manhattan_neighborhood c r True sz) \<union> set cs))"
  by (cases sz) (simp add: count_centers_def all_neighbors_eq)

lemma count_centers_wrap:
  "cs \<noteq> [] \<Longrightarrow> count_centers cs r True (sx, sy) =
     Inr (card ((\<lambda>(x, y). (np_remainder x sx, np_remainder y sy)) `
            ((\<Union>c \<in> set cs. manhattan_neighborhood c r False (sx, sy)) \<union> set cs)))"
  by (simp add: count_centers_def all_neighbors_eq)

lemma count_centers_Inr: "\<exists>n. count_centers cs r w sz = Inr n"
proof (cases "cs = []")
  case True
  then show ?thesis by (simp add: count_centers_Nil)
next
  case False
  then show ?thesis
    by (cases sz; cases w) (simp_all add: count_centers_wrap count_centers_prune)
qed

lemma count_centers_cong:
  assumes "set cs = set cs'"
  shows "count_centers cs r w sz = count_centers cs' r w sz"
proof (cases "cs = []")
  case True
  then have "cs' = []" using assms by simp
  with True show ?thesis by simp
next
  case False
  then have "cs' \<noteq> []" using assms by auto
  with False assms show ?thesis
    by (cases sz; cases w) (simp_all add: count_centers_wrap count_centers_prune)
qed

lemma finite_union_neighbors:
  "finite ((\<Union>c \<in> set cs. manhattan_neighborhood c r p sz) \<union> set cs)"
  by (simp add: finite_neighborhood)

section \<open>The extracted centers\<close>

lemma shape_rank2: "length (s :: nat list) = 2 \<Longrightarrow> \<exists>H W. s = [H, W]"
  by (cases s; cases "tl s") auto

lemma set_centers:
  "shape X = [H, W] \<Longrightarrow> set (array_to_pos_center_coordinates X) =
     {(int i, int j) | i j. i < H \<and> j < W \<and> data X ! (i * W + j) > 0}"
  by (auto simp: array_to_pos_center_coordinates_def)

lemma index_less: "i < H \<Longrightarrow> j < W \<Longrightarrow> i * W + j < H * (W::nat)"
proof -
  assume a: "i < H" "j < W"
  have "i * W + j < i * W + W" using a by simp
  also have "\<dots> = Suc i * W" by simp
  also have "\<dots> \<le> H * W" using a by (intro mult_le_mono1) simp
  finally show ?thesis .
qed

lemma card_centers:
  assumes sh: "shape X = [H, W]" and len: "length (data X) = H * W"
  shows "card (set (array_to_pos_center_coordinates X)) = positive_cells X"
proof -
  define K where "K = {k. k < H * W \<and> data X ! k > 0}"
  define f where "f = (\<lambda>k. (int (k div W), int (k mod W)))"
  have W: "0 < W" if "k \<in> K" for k
    using that by (cases W) (auto simp: K_def)
  have "inj_on f K"
  proof (rule inj_onI)
    fix k k' assume "k \<in> K" "k' \<in> K" "f k = f k'"
    then have "k div W = k' div W" "k mod W = k' mod W"
      by (simp_all add: f_def)
    then show "k = k'"
      by (metis div_mult_mod_eq)
  qed
  then have "card (f ` K) = card K"
    by (rule card_image)
  moreover have "set (array_to_pos_center_coordinates X) = f ` K"
  proof (rule set_eqI)
    fix p
    show "p \<in> set (array_to_pos_center_coordinates X) \<longleftrightarrow> p \<in> f ` K"
    proof
      assume "p \<in> set (array_to_pos_center_coordinates X)"
      then obtain i j where ij: "p = (int i, int j)" "i < H" "j < W" "data X ! (i * W + j) > 0"
        unfolding set_centers [OF sh] by blast
      have "i * W + j \<in> K"
        using ij index_less [of i H j W] by (simp add: K_def)
      moreover have "f (i * W + j) = p"
        using ij by (simp add: f_def)
      ultimately show "p \<in> f ` K" by blast
    next
      assume "p \<in> f ` K"
      then obtain k where k: "k \<in> K" "p = f k" by blast
      have "0 < W" using k W by blast
      then have "k div W < H" "k mod W < W"
        using k by (simp_all add: K_def less_mult_imp_div_less)
      moreover have "data X ! (k div W * W + k mod W) > 0"
        using k by (simp add: K_def)
      ultimately show "p \<in> set (array_to_pos_center_coordinates X)"
        unfolding set_centers [OF sh] using k(2) by (auto simp: f_def)
    qed
  qed
  moreover have "positive_cells X = card K"
    by (simp add: positive_cells_def length_filter_conv_card K_def len)
  ultimately show ?thesis by simp
qed

lemma centers_in_bounds:
  "shape X = [H, W] \<Longrightarrow> (a, b) \<in> set (array_to_pos_center_coordinates X) \<Longrightarrow>
     0 \<le> a \<and> a < int H \<and> 0 \<le> b \<and> b < int W"
  by (auto simp: set_centers)

lemma centers_Nil:
  assumes sh: "shape X = [H, W]" and len: "length (data X) = H * W"
    and np: "\<forall>v \<in> set (data X). \<not> v > 0"
  shows "array_to_pos_center_coordinates X = []"
proof -
  have "set (array_to_pos_center_coordinates X) = {}"
    unfolding set_centers [OF sh] using np len index_less [of _ H _ W]
    by (auto simp: all_set_conv_all_nth)
  then show ?thesis by simp
qed

lemma centers_nonempty_dims:
  assumes sh: "shape X = [H, W]" and ne: "array_to_pos_center_coordinates X \<noteq> []"
  shows "0 < H \<and> 0 < W"
proof -
  obtain p where "p \<in> set (array_to_pos_center_coordinates X)"
    using ne by (cases "array_to_pos_center_coordinates X") auto
  then show ?thesis
    using centers_in_bounds [OF sh, of "fst p" "snd p"] by simp
qed

lemma wrap_in_bounds:
  "0 \<le> a \<Longrightarrow> a < sx \<Longrightarrow> np_remainder a sx = a"
  by (simp add: np_remainder_def)

lemma wrap_centers:
  assumes sh: "shape X = [H, W]"
  shows "(\<lambda>(x, y). (np_remainder x (int H), np_remainder y (int W))) `
            set (array_to_pos_center_coordinates X) = set (array_to_pos_center_coordinates X)"
proof -
  have "(\<lambda>(x, y). (np_remainder x (int H), np_remainder y (int W))) p = p"
    if "p \<in> set (array_to_pos_center_coordinates X)" for p
  proof -
    obtain a b where p: "p = (a, b)" by (cases p)
    show ?thesis
      using centers_in_bounds [OF sh, of a b] that unfolding p
      by (simp add: wrap_in_bounds)
  qed
  then show ?thesis by (simp add: image_def cong: rev_conj_cong) 
qed

lemma np_remainder_fold:
  "sx \<noteq> 0 \<Longrightarrow> sy \<noteq> 0 \<Longrightarrow>
     (\<lambda>(x, y). (np_remainder x sx, np_remainder y sy)) = (\<lambda>(x, y). (x mod sx, y mod sy))"
  by (simp add: np_remainder_def)

lemma wf_rank2: "shape X = [H, W] \<Longrightarrow> wf_ndarray X \<Longrightarrow> length (data X) = H * W"
  by (simp add: wf_ndarray_def)

lemma count_rank2:
  "shape X = [H, W] \<Longrightarrow> count_positive_neighborhood_size X r w =
     count_centers (array_to_pos_center_coordinates X) r w (int H, int W)"
  by (simp add: count_positive_neighborhood_size_def)

lemma count_no_neighbors:
  assumes sh: "shape X = [H, W]" and wf: "wf_ndarray X" and r: "r \<le> 0"
  shows "count_positive_neighborhood_size X r w = Inr (positive_cells X)"
proof -
  let ?cs = "array_to_pos_center_coordinates X"
  have card: "card (set ?cs) = positive_cells X"
    using sh wf_rank2 [OF sh wf] by (rule card_centers)
  show ?thesis
  proof (cases "?cs = []")
    case True
    then show ?thesis
      using card by (simp add: count_rank2 [OF sh] count_centers_Nil)
  next
    case False
    have empty: "(\<Union>c \<in> set ?cs. manhattan_neighborhood c r p sz) = {}" for p sz
      using r by (simp add: neighborhood_empty)
    show ?thesis
    proof (cases w)
      case True
      then show ?thesis
        using False card
        by (simp add: count_rank2 [OF sh] count_centers_wrap empty wrap_centers [OF sh])
    next
      case w: False
      then show ?thesis
        using False card
        by (simp add: count_rank2 [OF sh] count_centers_prune empty)
    qed
  qed
qed

section \<open>Transposition\<close>

lemma length_comprehension:
  "length [f j i. j \<leftarrow> [0..<W], i \<leftarrow> [0..<H]] = W * H"
  by (induction W) simp_all

lemma nth_comprehension:
  "j < W \<Longrightarrow> i < H \<Longrightarrow> [f j i. j \<leftarrow> [0..<W], i \<leftarrow> [0..<H]] ! (j * H + i) = f j i"
proof (induction W)
  case 0
  then show ?case by simp
next
  case (Suc W)
  show ?case
  proof (cases "j < W")
    case True
    then have "j * H + i < W * H"
      using Suc.prems(2) by (intro index_less)
    then show ?thesis
      using Suc.IH [OF True Suc.prems(2)]
      by (simp add: nth_append length_comprehension)
  next
    case False
    then have "j = W" using Suc.prems(1) by simp
    then show ?thesis
      using Suc.prems(2) by (simp add: nth_append length_comprehension)
  qed
qed

lemma shape_transpose: "shape X = [H, W] \<Longrightarrow> shape (transpose_nd X) = [W, H]"
  by (simp add: transpose_nd_def)

lemma data_transpose:
  "shape X = [H, W] \<Longrightarrow> j < W \<Longrightarrow> i < H \<Longrightarrow>
     data (transpose_nd X) ! (j * H + i) = data X ! (i * W + j)"
  using nth_comprehension [of j W i H "\<lambda>j i. data X ! (i * W + j)"]
  by (simp add: transpose_nd_def)

lemma centers_transpose:
  assumes sh: "shape X = [H, W]"
  shows "set (array_to_pos_center_coordinates (transpose_nd X)) =
           prod.swap ` set (array_to_pos_center_coordinates X)"
  unfolding set_centers [OF shape_transpose [OF sh]] set_centers [OF sh]
  using data_transpose [OF sh] by (auto simp: image_iff) 

lemma union_neighbors_swap:
  "(\<Union>c \<in> prod.swap ` C. manhattan_neighborhood c r True (sy, sx)) \<union> prod.swap ` C =
     prod.swap ` ((\<Union>c \<in> C. manhattan_neighborhood c r True (sx, sy)) \<union> C)"
proof -
  have "manhattan_neighborhood (prod.swap c) r True (sy, sx) =
      prod.swap ` manhattan_neighborhood c r True (sx, sy)" for c
  proof -
    obtain x y where c: "c = (x, y)" by (cases c)
    show ?thesis
      unfolding c swap_simp by (rule neighborhood_swap)
  qed
  then have "(\<Union>c \<in> prod.swap ` C. manhattan_neighborhood c r True (sy, sx)) =
      prod.swap ` (\<Union>c \<in> C. manhattan_neighborhood c r True (sx, sy))"
    by (simp only: image_UN UN_simps image_image)
  then show ?thesis
    by (simp only: image_Un)
qed

lemma count_transpose:
  assumes sh: "shape X = [H, W]"
  shows "count_positive_neighborhood_size (transpose_nd X) r False =
         count_positive_neighborhood_size X r False"
proof -
  let ?cs = "array_to_pos_center_coordinates X"
  let ?ct = "array_to_pos_center_coordinates (transpose_nd X)"
  have ct: "set ?ct = prod.swap ` set ?cs"
    using sh by (rule centers_transpose)
  show ?thesis
  proof (cases "?cs = []")
    case True
    then have "?ct = []" using ct by simp
    with True show ?thesis
      by (simp add: count_rank2 [OF sh] count_rank2 [OF shape_transpose [OF sh]] count_centers_Nil)
  next
    case False
    then have nt: "?ct \<noteq> []" using ct by auto
    have "card ((\<Union>c \<in> set ?ct. manhattan_neighborhood c r True (int W, int H)) \<union> set ?ct) =
        card (prod.swap ` ((\<Union>c \<in> set ?cs. manhattan_neighborhood c r True (int H, int W)) \<union> set ?cs))"
      unfolding ct union_neighbors_swap ..
    also have "\<dots> = card ((\<Union>c \<in> set ?cs. manhattan_neighborhood c r True (int H, int W)) \<union> set ?cs)"
      by (rule card_image) simp
    finally show ?thesis
      unfolding count_rank2 [OF sh] count_rank2 [OF shape_transpose [OF sh]]
        count_centers_prune [OF False] count_centers_prune [OF nt] by simp
  qed
qed

section \<open>The grid as a box of coordinates\<close>

lemma card_box: "card ({0..int H - 1} \<times> {0..int W - 1}) = H * W"
  by (simp add: card_cartesian_product)

lemma centers_subset_box:
  "shape X = [H, W] \<Longrightarrow>
     set (array_to_pos_center_coordinates X) \<subseteq> {0..int H - 1} \<times> {0..int W - 1}"
  using centers_in_bounds by fastforce

lemma wrap_subset_box:
  assumes "0 < H" "0 < W"
  shows "(\<lambda>(x, y). (np_remainder x (int H), np_remainder y (int W))) ` U
           \<subseteq> {0..int H - 1} \<times> {0..int W - 1}"
proof -
  have "0 \<le> a mod int H \<and> a mod int H \<le> int H - 1" for a
    using assms(1) pos_mod_bound [of "int H" a] by simp
  moreover have "0 \<le> b mod int W \<and> b mod int W \<le> int W - 1" for b
    using assms(2) pos_mod_bound [of "int W" b] by simp
  ultimately show ?thesis
    using assms by (auto simp: np_remainder_def)
qed

section \<open>The unpruned neighbourhood is the punctured L1 ball\<close>

text \<open>
  Claim C1. For every center \<open>(x, y)\<close> and every radius, in particular every non-negative
  one, \<^verbatim>\<open>manhattan_neighborhood\<close> without pruning returns exactly the set of coordinates
  whose Manhattan distance \<open>d\<close> to the center satisfies \<open>0 < d \<le> radius\<close>: the closed L1
  ball of that radius without its center. The \<^verbatim>\<open>size\<close> argument plays no role. (For a
  negative radius both sides are empty.)
\<close>

theorem manhattan_neighborhood_is_punctured_ball:
  "manhattan_neighborhood (x, y) radius False size' =
     {p. 0 < l1_distance p (x, y) \<and> l1_distance p (x, y) \<le> radius}"
  unfolding neighborhood_unpruned by (auto simp: l1_distance_def)

section \<open>The only error is the rank check\<close>

text \<open>
  Claim C2. \<^verbatim>\<open>count_positive_neighborhood_size\<close> raises an error if and only if the
  array is not of rank 2, and the error is then the \<^verbatim>\<open>ValueError\<close> of the rank check. No
  radius, no element value and no empty axis triggers an error: the \<^verbatim>\<open>TypeError\<close> of
  \<^verbatim>\<open>reduce\<close> on an empty list is kept out by the early return for an array without a
  positive cell.
\<close>

theorem error_iff_not_rank2:
  "isl (count_positive_neighborhood_size X radius wraparound) = (length (shape X) \<noteq> 2) \<and>
   (count_positive_neighborhood_size X radius wraparound = Inl ValueError) = (length (shape X) \<noteq> 2)"
proof (cases "length (shape X) = 2")
  case True
  obtain n where "count_centers (array_to_pos_center_coordinates X) radius wraparound
      (int (shape X ! 0), int (shape X ! 1)) = Inr n"
    using count_centers_Inr by blast
  with True show ?thesis
    by (simp add: count_positive_neighborhood_size_def)
next
  case False
  then show ?thesis
    by (simp add: count_positive_neighborhood_size_def)
qed

section \<open>An array without a positive cell\<close>

text \<open>
  Claim C3. For every rank 2 array in which no cell value is strictly greater than 0, the
  count is 0, for every radius and for both wraparound settings.
\<close>

theorem no_positive_cell_counts_zero:
  assumes "length (shape X) = 2" and "wf_ndarray X" and "\<forall>v \<in> set (data X). \<not> v > 0"
  shows "count_positive_neighborhood_size X radius wraparound = Inr 0"
proof -
  obtain H W where sh: "shape X = [H, W]"
    using assms(1) shape_rank2 by blast
  have "array_to_pos_center_coordinates X = []"
    using sh wf_rank2 [OF sh assms(2)] assms(3) by (rule centers_Nil)
  then show ?thesis
    by (simp add: count_rank2 [OF sh] count_centers_Nil)
qed

theorem no_positive_cell_counts_zero_witness:
  "count_positive_neighborhood_size \<lparr>shape = [2, 3], data = [0, - 1, 0, 0, - 2, 0]\<rparr> 2 True = Inr 0"
  using no_positive_cell_counts_zero [of "\<lparr>shape = [2, 3], data = [0, - 1, 0, 0, - 2, 0]\<rparr>" 2 True]
  by (simp add: wf_ndarray_def)

section \<open>Radius 0 without wraparound\<close>

text \<open>
  Claim C4. For every rank 2 array, the count for radius 0 without wraparound is the
  number of cells whose value is strictly greater than 0: every neighbourhood is empty and
  the centers are added back.
\<close>

theorem radius_zero_counts_positive_cells:
  assumes "length (shape X) = 2" and "wf_ndarray X"
  shows "count_positive_neighborhood_size X 0 False = Inr (positive_cells X)"
proof -
  obtain H W where sh: "shape X = [H, W]"
    using assms(1) shape_rank2 by blast
  show ?thesis
    using sh assms(2) by (rule count_no_neighbors) simp
qed

theorem radius_zero_counts_positive_cells_witness:
  "count_positive_neighborhood_size \<lparr>shape = [2, 3], data = [0, 4, 0, 1, - 2, 7]\<rparr> 0 False = Inr 3"
proof -
  have "positive_cells \<lparr>shape = [2, 3], data = [0, 4, 0, 1, - 2, 7]\<rparr> = 3"
    by (simp add: positive_cells_def)
  then show ?thesis
    using radius_zero_counts_positive_cells [of "\<lparr>shape = [2, 3], data = [0, 4, 0, 1, - 2, 7]\<rparr>"]
    by (simp add: wf_ndarray_def)
qed

section \<open>Pruning\<close>

text \<open>
  Claim C5. With pruning, \<^verbatim>\<open>manhattan_neighborhood\<close> returns exactly those coordinates
  \<open>(x, y)\<close> of the unpruned neighbourhood with \<open>0 \<le> x \<le> W - 1\<close> and \<open>0 \<le> y \<le> H - 1\<close>, where
  \<open>(W, H)\<close> is the \<^verbatim>\<open>size\<close> argument: a coordinate outside these bounds on either axis and
  on either side is dropped, every other one is kept. Together with the shape of the
  unpruned neighbourhood, the result is the punctured L1 ball cut to the bounds.
\<close>

theorem pruning_keeps_exactly_in_bounds:
  "manhattan_neighborhood c radius True (W, H) =
     {(x, y) \<in> manhattan_neighborhood c radius False (W, H).
        0 \<le> x \<and> x \<le> W - 1 \<and> 0 \<le> y \<and> y \<le> H - 1} \<and>
   manhattan_neighborhood c radius True (W, H) =
     {p. 0 < l1_distance p c \<and> l1_distance p c \<le> radius \<and>
         0 \<le> fst p \<and> fst p \<le> W - 1 \<and> 0 \<le> snd p \<and> snd p \<le> H - 1}"
proof
  show "manhattan_neighborhood c radius True (W, H) =
     {(x, y) \<in> manhattan_neighborhood c radius False (W, H).
        0 \<le> x \<and> x \<le> W - 1 \<and> 0 \<le> y \<and> y \<le> H - 1}"
    using neighborhood_pruned [of c radius "(W, H)"] by simp
next
  obtain x y where c: "c = (x, y)" by (cases c)
  show "manhattan_neighborhood c radius True (W, H) =
     {p. 0 < l1_distance p c \<and> l1_distance p c \<le> radius \<and>
         0 \<le> fst p \<and> fst p \<le> W - 1 \<and> 0 \<le> snd p \<and> snd p \<le> H - 1}"
    unfolding c neighborhood_pruned_eq by (auto simp: l1_distance_def)
qed

section \<open>Folding under wraparound\<close>

text \<open>
  Claim C6. With wraparound, for an array of shape \<open>(W, H)\<close> with a positive cell, the count
  is the number of distinct images \<open>(x mod W, y mod H)\<close> of the coordinates \<open>(x, y)\<close> of the
  union \<open>U\<close> of the unpruned neighbourhoods and the centers, and it is never greater than
  the number of coordinates of \<open>U\<close>. An array without a positive cell has the count 0 and
  no such set is built.
\<close>

theorem wraparound_fold_never_increases:
  assumes sh: "shape X = [W, H]"
  shows "(array_to_pos_center_coordinates X = [] \<and>
            count_positive_neighborhood_size X radius True = Inr 0) \<or>
         (\<exists>U. all_neighbors (array_to_pos_center_coordinates X) radius True (int W, int H) = Inr U \<and>
              U = (\<Union>c \<in> set (array_to_pos_center_coordinates X).
                     manhattan_neighborhood c radius False (int W, int H)) \<union>
                  set (array_to_pos_center_coordinates X) \<and>
              count_positive_neighborhood_size X radius True =
                Inr (card ((\<lambda>(x, y). (x mod int W, y mod int H)) ` U)) \<and>
              card ((\<lambda>(x, y). (x mod int W, y mod int H)) ` U) \<le> card U)"
proof (cases "array_to_pos_center_coordinates X = []")
  case True
  then show ?thesis
    by (simp add: count_rank2 [OF sh] count_centers_Nil)
next
  case False
  let ?cs = "array_to_pos_center_coordinates X"
  let ?U = "(\<Union>c \<in> set ?cs. manhattan_neighborhood c radius False (int W, int H)) \<union> set ?cs"
  have dims: "int W \<noteq> 0" "int H \<noteq> 0"
    using centers_nonempty_dims [OF sh False] by simp_all
  have "all_neighbors ?cs radius True (int W, int H) = Inr ?U"
    using False by (simp add: all_neighbors_eq)
  moreover have "count_positive_neighborhood_size X radius True =
      Inr (card ((\<lambda>(x, y). (x mod int W, y mod int H)) ` ?U))"
    unfolding count_rank2 [OF sh] count_centers_wrap [OF False] np_remainder_fold [OF dims] ..
  moreover have "card ((\<lambda>(x, y). (x mod int W, y mod int H)) ` ?U) \<le> card ?U"
    by (rule card_image_le) (rule finite_union_neighbors)
  ultimately show ?thesis by blast
qed

theorem wraparound_fold_never_increases_witness:
  "\<exists>U. all_neighbors (array_to_pos_center_coordinates \<lparr>shape = [2, 2], data = [1, 0, 0, 0]\<rparr>) 1 True (2, 2) = Inr U \<and>
       count_positive_neighborhood_size \<lparr>shape = [2, 2], data = [1, 0, 0, 0]\<rparr> 1 True =
         Inr (card ((\<lambda>(x, y). (x mod 2, y mod 2)) ` U)) \<and>
       card ((\<lambda>(x, y). (x mod 2, y mod 2)) ` U) \<le> card U"
proof -
  have "array_to_pos_center_coordinates \<lparr>shape = [2, 2], data = [1, 0, 0, 0]\<rparr> = [(0, 0)]"
    by code_simp
  then have ne: "array_to_pos_center_coordinates \<lparr>shape = [2, 2], data = [1, 0, 0, 0]\<rparr> \<noteq> []"
    by simp
  have sh: "shape \<lparr>shape = [2, 2], data = [1, 0, 0, 0]\<rparr> = [2, 2]"
    by simp
  show ?thesis
    using wraparound_fold_never_increases [OF sh, of 1] ne by auto
qed

section \<open>The order of the centers\<close>

text \<open>
  Claim C7. The count does not depend on the order in which the positive centers are
  visited: for every rank 2 array, radius and wraparound setting, running lines 96 to 120
  on any permutation \<open>cs\<close> of the extracted centers gives the result of
  \<^verbatim>\<open>count_positive_neighborhood_size\<close>.
\<close>

theorem count_independent_of_center_order:
  assumes "length (shape X) = 2" and "mset cs = mset (array_to_pos_center_coordinates X)"
  shows "count_centers cs radius wraparound (int (shape X ! 0), int (shape X ! 1)) =
         count_positive_neighborhood_size X radius wraparound"
proof -
  have "set cs = set (array_to_pos_center_coordinates X)"
    using assms(2) by (rule mset_eq_setD)
  then show ?thesis
    using assms(1) by (simp add: count_positive_neighborhood_size_def count_centers_cong [of cs])
qed

theorem count_independent_of_center_order_witness:
  "count_centers [(1, 1), (0, 0)] 1 True (2, 2) =
     count_positive_neighborhood_size \<lparr>shape = [2, 2], data = [1, 0, 0, 1]\<rparr> 1 True"
proof -
  have "array_to_pos_center_coordinates \<lparr>shape = [2, 2], data = [1, 0, 0, 1]\<rparr> = [(0, 0), (1, 1)]"
    by code_simp
  then show ?thesis
    using count_independent_of_center_order [of "\<lparr>shape = [2, 2], data = [1, 0, 0, 1]\<rparr>" "[(1, 1), (0, 0)]" 1 True]
    by simp
qed

section \<open>Transposing a square array\<close>

text \<open>
  Claim C8. For every square rank 2 array and every radius, without wraparound, the count
  of the transposed array equals the count of the array. (Lemma \<open>count_transpose\<close> shows
  the same for every rectangular array.)
\<close>

theorem square_transpose_invariant:
  assumes "shape X = [n, n]"
  shows "count_positive_neighborhood_size (transpose_nd X) radius False =
         count_positive_neighborhood_size X radius False"
  using assms by (rule count_transpose)

theorem square_transpose_invariant_witness:
  "count_positive_neighborhood_size (transpose_nd \<lparr>shape = [3, 3], data = [0, 1, 0, 0, 0, 0, 0, 0, 0]\<rparr>) 1 False =
   count_positive_neighborhood_size \<lparr>shape = [3, 3], data = [0, 1, 0, 0, 0, 0, 0, 0, 0]\<rparr> 1 False"
  using square_transpose_invariant [of "\<lparr>shape = [3, 3], data = [0, 1, 0, 0, 0, 0, 0, 0, 0]\<rparr>" 3 1]
  by simp

section \<open>A negative radius\<close>

text \<open>
  Claim C9. For every rank 2 array and every negative radius, the function returns without
  error, the result is the number of positive cells (0 when there are none), and it is
  the result for radius 0, for both wraparound settings.
\<close>

theorem negative_radius_as_radius_zero:
  assumes "length (shape X) = 2" and "wf_ndarray X" and "radius < 0"
  shows "count_positive_neighborhood_size X radius wraparound = Inr (positive_cells X) \<and>
         count_positive_neighborhood_size X radius wraparound =
           count_positive_neighborhood_size X 0 wraparound"
proof -
  obtain H W where sh: "shape X = [H, W]"
    using assms(1) shape_rank2 by blast
  have "count_positive_neighborhood_size X radius wraparound = Inr (positive_cells X)"
    using sh assms(2) by (rule count_no_neighbors) (use assms(3) in simp)
  moreover have "count_positive_neighborhood_size X 0 wraparound = Inr (positive_cells X)"
    using sh assms(2) by (rule count_no_neighbors) simp
  ultimately show ?thesis by simp
qed

theorem negative_radius_as_radius_zero_witness:
  "count_positive_neighborhood_size \<lparr>shape = [2, 3], data = [0, 4, 0, 1, - 2, 7]\<rparr> (- 3) True = Inr 3 \<and>
   count_positive_neighborhood_size \<lparr>shape = [2, 3], data = [0, 4, 0, 1, - 2, 7]\<rparr> (- 3) True =
     count_positive_neighborhood_size \<lparr>shape = [2, 3], data = [0, 4, 0, 1, - 2, 7]\<rparr> 0 True"
proof -
  have "positive_cells \<lparr>shape = [2, 3], data = [0, 4, 0, 1, - 2, 7]\<rparr> = 3"
    by (simp add: positive_cells_def)
  then show ?thesis
    using negative_radius_as_radius_zero [of "\<lparr>shape = [2, 3], data = [0, 4, 0, 1, - 2, 7]\<rparr>" "- 3" True]
    by (auto simp: wf_ndarray_def)
qed

section \<open>Bounds on the count\<close>

text \<open>
  Claim C10. For every rank 2 array with \<open>H\<close> rows and \<open>W\<close> columns, every radius and both
  wraparound settings, in particular for \<open>H, W \<ge> 1\<close> and a non-negative radius, the function
  returns a count \<open>n\<close> with: number of positive cells \<open>\<le> n \<le> H * W\<close>.
\<close>

theorem count_between_positive_cells_and_grid_size:
  assumes sh: "shape X = [H, W]" and wf: "wf_ndarray X"
  shows "\<exists>n. count_positive_neighborhood_size X radius wraparound = Inr n \<and>
             positive_cells X \<le> n \<and> n \<le> H * W"
proof -
  let ?cs = "array_to_pos_center_coordinates X"
  let ?box = "{0..int H - 1} \<times> {0..int W - 1}"
  have card: "card (set ?cs) = positive_cells X"
    using sh wf_rank2 [OF sh wf] by (rule card_centers)
  have bounds: "positive_cells X \<le> card S \<and> card S \<le> H * W"
    if "set ?cs \<subseteq> S" "S \<subseteq> ?box" for S
  proof -
    have fin: "finite S"
      using that(2) by (rule finite_subset) simp
    have "card (set ?cs) \<le> card S"
      using fin that(1) by (rule card_mono)
    moreover have "card S \<le> card ?box"
      using that(2) by (intro card_mono) simp_all
    ultimately show ?thesis
      using card card_box [of H W] by simp
  qed
  show ?thesis
  proof (cases "?cs = []")
    case True
    then show ?thesis
      using card by (simp add: count_rank2 [OF sh] count_centers_Nil)
  next
    case False
    show ?thesis
    proof (cases wraparound)
      case True
      let ?wrap = "\<lambda>(x, y). (np_remainder x (int H), np_remainder y (int W))"
      let ?U = "(\<Union>c \<in> set ?cs. manhattan_neighborhood c radius False (int H, int W)) \<union> set ?cs"
      have "?wrap ` set ?cs \<subseteq> ?wrap ` ?U"
        by (rule image_mono) simp
      then have "set ?cs \<subseteq> ?wrap ` ?U"
        unfolding wrap_centers [OF sh] .
      moreover have "?wrap ` ?U \<subseteq> ?box"
        using centers_nonempty_dims [OF sh False] by (intro wrap_subset_box) simp_all
      ultimately have "positive_cells X \<le> card (?wrap ` ?U) \<and> card (?wrap ` ?U) \<le> H * W"
        by (rule bounds)
      moreover have "count_positive_neighborhood_size X radius wraparound = Inr (card (?wrap ` ?U))"
        by (simp only: True count_rank2 [OF sh] count_centers_wrap [OF False])
      ultimately show ?thesis by blast
    next
      case w: False
      let ?U = "(\<Union>c \<in> set ?cs. manhattan_neighborhood c radius True (int H, int W)) \<union> set ?cs"
      have "set ?cs \<subseteq> ?U" by simp
      moreover have "?U \<subseteq> ?box"
        using neighborhood_in_box [of _ radius "int H" "int W"] centers_subset_box [OF sh]
        by blast
      ultimately have "positive_cells X \<le> card ?U \<and> card ?U \<le> H * W"
        by (rule bounds)
      moreover have "count_positive_neighborhood_size X radius wraparound = Inr (card ?U)"
        by (simp only: w count_rank2 [OF sh] count_centers_prune [OF False])
      ultimately show ?thesis by blast
    qed
  qed
qed

theorem count_between_positive_cells_and_grid_size_witness:
  "\<exists>n. count_positive_neighborhood_size \<lparr>shape = [2, 3], data = [0, 4, 0, 1, - 2, 7]\<rparr> 1 True = Inr n \<and>
       3 \<le> n \<and> n \<le> 6"
proof -
  have "positive_cells \<lparr>shape = [2, 3], data = [0, 4, 0, 1, - 2, 7]\<rparr> = 3"
    by (simp add: positive_cells_def)
  then show ?thesis
    using count_between_positive_cells_and_grid_size [of "\<lparr>shape = [2, 3], data = [0, 4, 0, 1, - 2, 7]\<rparr>" 2 3 1 True]
    by (simp add: wf_ndarray_def)
qed

end
